theory Spec2Isabelle
  imports Complex_Main "HOL-Library.Multiset"
begin

section \<open>Python values used by the slice selector\<close>

text \<open>
  The development embeds \<^verbatim>\<open>src/server/utils/intelligent-slice-selector.py\<close>.
  Exceptions are values: a function that can raise returns \<open>py_error + 'a\<close>.
  \<open>OverflowError\<close> is what the conversion of an integer to a double raises beyond the
  double range, \<open>IndexError\<close> is a list read out of range, \<open>OtherError\<close> carries the
  message of any other exception.
\<close>

datatype py_error = OverflowError | IndexError | OtherError string

fun str_of_error :: "py_error \<Rightarrow> string" where
  "str_of_error OverflowError = ''int too large to convert to float''"
| "str_of_error IndexError = ''list index out of range''"
| "str_of_error (OtherError msg) = msg"

text \<open>Reading \<^verbatim>\<open>xs[j]\<close> at a non-negative position.\<close>

definition py_index :: "'a list \<Rightarrow> nat \<Rightarrow> py_error + 'a" where
  "py_index xs j = (if j < length xs then Inr (xs ! j) else Inl IndexError)"

text \<open>A list comprehension whose element expression can raise stops at the first error.\<close>

fun collect :: "(py_error + 'a) list \<Rightarrow> py_error + 'a list" where
  "collect [] = Inr []"
| "collect (Inl e # rs) = Inl e"
| "collect (Inr x # rs) = (case collect rs of Inl e \<Rightarrow> Inl e | Inr xs \<Rightarrow> Inr (x # xs))"

text \<open>
  Slicing: a bound below zero counts from the end, and every bound is clamped to the
  list. \<open>py_slice xs a b\<close> is \<^verbatim>\<open>xs[a:b]\<close> and \<open>py_prefix xs b\<close> is \<^verbatim>\<open>xs[:b]\<close>.
\<close>

definition py_clamp :: "int \<Rightarrow> nat \<Rightarrow> nat" where
  "py_clamp i n = (if i < 0 then nat (max 0 (int n + i)) else min (nat i) n)"

definition py_slice :: "'a list \<Rightarrow> int \<Rightarrow> int \<Rightarrow> 'a list" where
  "py_slice xs a b =
     (let s = py_clamp a (length xs); e = py_clamp b (length xs)
      in take (e - s) (drop s xs))"

definition py_prefix :: "'a list \<Rightarrow> int \<Rightarrow> 'a list" where
  "py_prefix xs b = take (py_clamp b (length xs)) xs"

subsection \<open>Products of an integer and a double constant\<close>

text \<open>
  The selector computes \<^verbatim>\<open>int(n * c)\<close> for an integer \<open>n\<close> and a double literal \<open>c\<close>:
  the integer is converted to the nearest double (ties to even, \<open>OverflowError\<close> from
  \<open>2^1024\<close> on), the product is rounded to the nearest double, and \<^verbatim>\<open>int\<close> drops the
  fraction towards zero. A double constant is written \<open>(m, e)\<close> for the value
  \<open>m / 2^e\<close>; \<open>round53\<close> rounds a non-negative integer to 53 significant bits.
\<close>

function bit_length :: "int \<Rightarrow> nat" where
  "bit_length n = (if n \<le> 0 then 0 else Suc (bit_length (n div 2)))"
  by pat_completeness auto
termination
  by (relation "measure nat") auto

declare bit_length.simps [simp del]

definition round53 :: "int \<Rightarrow> int" where
  "round53 x =
     (let b = bit_length x in
      if b \<le> 53 then x
      else
        let s = b - 53;
            m = x div 2 ^ s;
            r = x mod 2 ^ s;
            m' = (if 2 ^ s < 2 * r \<or> (2 * r = 2 ^ s \<and> odd m) then m + 1 else m)
        in m' * 2 ^ s)"

type_synonym py_float = "int \<times> nat"

definition trunc_product :: "int \<Rightarrow> py_float \<Rightarrow> int" where
  "trunc_product n c = sgn n * (round53 (round53 \<bar>n\<bar> * fst c) div 2 ^ snd c)"

definition int_of_product :: "int \<Rightarrow> py_float \<Rightarrow> py_error + int" where
  "int_of_product n c =
     (if 2 ^ 1024 \<le> round53 \<bar>n\<bar> then Inl OverflowError else Inr (trunc_product n c))"

definition float_0_0 :: py_float where "float_0_0 = (0, 0)"
definition float_0_2 :: py_float where "float_0_2 = (3602879701896397, 54)"
definition float_0_4 :: py_float where "float_0_4 = (3602879701896397, 53)"
definition float_0_6 :: py_float where "float_0_6 = (5404319552844595, 53)"
definition float_0_7 :: py_float where "float_0_7 = (3152519739159347, 52)"
definition float_0_8 :: py_float where "float_0_8 = (3602879701896397, 52)"
definition float_1_0 :: py_float where "float_1_0 = (1, 0)"

section \<open>Slices in Hounsfield units\<close>

text \<open>
  A calibrated slice is the array that \<^verbatim>\<open>dicom_to_hu\<close> returns, flattened: every
  operation of the selector on it is elementwise or a reduction over all elements. An
  element is a finite number or one of the values (infinities, NaN) that fail every
  comparison \<^verbatim>\<open>lower < v < upper\<close> between finite bounds.
\<close>

datatype hu_value = Finite rat | NotFinite

type_synonym hu_array = "hu_value list"

fun strictly_between :: "rat \<Rightarrow> rat \<Rightarrow> hu_value \<Rightarrow> bool" where
  "strictly_between lower upper (Finite v) = (lower < v \<and> v < upper)"
| "strictly_between lower upper NotFinite = False"

text \<open>
  \<^verbatim>\<open>get_lung_mask\<close> with its default arguments. The source compares the double quotient
  \<^verbatim>\<open>np.sum(mask) / mask.size\<close> with the double \<open>0.1\<close>; for arrays of fewer than \<open>2^53\<close>
  elements that is the exact comparison written here. An empty array gives NaN, which
  is not \<open>\<ge> 0.1\<close>.
\<close>

definition get_lung_mask :: "hu_array \<Rightarrow> bool" where
  "get_lung_mask slice_hu =
     (let mask = filter (strictly_between (- 1000) (- 400)) slice_hu
      in slice_hu \<noteq> [] \<and> length slice_hu \<le> 10 * length mask)"

text \<open>
  \<^verbatim>\<open>calculate_slice_variance\<close>. \<^verbatim>\<open>np.var\<close> is the library's floating-point variance
  (its default \<^verbatim>\<open>ddof=0\<close>: the mean squared deviation from the mean); it is a parameter
  \<open>np_var\<close> of the model, applied to the masked values, and it may raise.
  \<open>variance_body\<close> is the body of the \<^verbatim>\<open>try\<close>, the function itself maps every raise to
  the score 0.
\<close>

type_synonym variance_fn = "rat list \<Rightarrow> py_error + rat"

fun finite_value :: "hu_value \<Rightarrow> rat" where
  "finite_value (Finite v) = v"
| "finite_value NotFinite = 0"

definition variance_body :: "variance_fn \<Rightarrow> hu_array \<Rightarrow> py_error + rat" where
  "variance_body np_var hu_slice =
     (let lung_mask = filter (strictly_between (- 1000) (- 200)) hu_slice
      in if length lung_mask < 100 then Inr 0
         else np_var (map finite_value lung_mask))"

definition calculate_slice_variance :: "variance_fn \<Rightarrow> hu_array option \<Rightarrow> rat" where
  "calculate_slice_variance np_var hu_slice =
     (case hu_slice of
        None \<Rightarrow> 0
      | Some hu \<Rightarrow> (case variance_body np_var hu of Inl e \<Rightarrow> 0 | Inr variance \<Rightarrow> variance))"

text \<open>
  The number that \<^verbatim>\<open>np.var\<close> approximates in floating point, the mean squared
  deviation from the mean. It serves to run the model on concrete arrays.
\<close>

definition exact_variance :: "rat list \<Rightarrow> rat" where
  "exact_variance xs =
     (let mean = sum_list xs / of_nat (length xs)
      in sum_list (map (\<lambda>x. (x - mean) * (x - mean)) xs) / of_nat (length xs))"

section \<open>The series\<close>

text \<open>
  One entry of \<^verbatim>\<open>dicom_slices\<close>: \<open>Unreadable\<close> is \<^verbatim>\<open>None\<close> (the buffer could not be
  read), \<open>Dataset None\<close> is a dataset on which \<^verbatim>\<open>dicom_to_hu\<close> raises, \<open>Dataset (Some hu)\<close>
  one that it converts to \<open>hu\<close>. Reading the buffers (base64 and DICOM decoding) is the
  work of external libraries; the model starts from their outcome.
\<close>

datatype dicom_slice = Unreadable | Dataset "hu_array option"

text \<open>The scoring loop: \<open>i\<close> is the index of the head of the list.\<close>

fun scan_slices :: "variance_fn \<Rightarrow> nat \<Rightarrow> dicom_slice list \<Rightarrow> (nat \<times> rat) list" where
  "scan_slices np_var i [] = []"
| "scan_slices np_var i (Unreadable # rest) = scan_slices np_var (Suc i) rest"
| "scan_slices np_var i (Dataset None # rest) = scan_slices np_var (Suc i) rest"
| "scan_slices np_var i (Dataset (Some hu) # rest) =
     (if get_lung_mask hu
      then (i, calculate_slice_variance np_var (Some hu)) # scan_slices np_var (Suc i) rest
      else scan_slices np_var (Suc i) rest)"

definition valid_indices :: "dicom_slice list \<Rightarrow> nat list" where
  "valid_indices dicom_slices =
     filter (\<lambda>i. dicom_slices ! i \<noteq> Unreadable) [0..<length dicom_slices]"

section \<open>The five-region quota system\<close>

datatype region = APEX | UPPER | CENTRAL | LOWER | BASE

definition regions :: "(region \<times> py_float \<times> py_float) list" where
  "regions =
     [(APEX, float_0_0, float_0_2),
      (UPPER, float_0_2, float_0_4),
      (CENTRAL, float_0_4, float_0_6),
      (LOWER, float_0_6, float_0_8),
      (BASE, float_0_8, float_1_0)]"

text \<open>
  The quota of a region that is processed, and the extras left after it, from
  \<^verbatim>\<open>quota_per_region\<close> and the extras left before it.
\<close>

definition region_quota :: "int \<Rightarrow> int \<Rightarrow> region \<Rightarrow> int \<times> int" where
  "region_quota quota_per_region extra_slices region_name =
     (if 0 < extra_slices \<and> region_name \<in> {CENTRAL, LOWER, APEX}
      then (quota_per_region + 1, extra_slices - 1)
      else (quota_per_region, extra_slices))"

text \<open>
  The candidates of a region with their scores (\<open>get_score\<close> is
  \<^verbatim>\<open>variance_scores.get(idx, 0)\<close>), sorted by score, highest first. Python's sort is
  stable also under \<^verbatim>\<open>reverse=True\<close>: candidates of equal score keep their order.
\<close>

definition get_score :: "(nat \<rightharpoonup> rat) \<Rightarrow> nat \<Rightarrow> rat" where
  "get_score variance_scores idx = (case variance_scores idx of None \<Rightarrow> 0 | Some v \<Rightarrow> v)"

definition with_var_sorted :: "(nat \<rightharpoonup> rat) \<Rightarrow> nat list \<Rightarrow> (nat \<times> rat) list" where
  "with_var_sorted variance_scores region_slices =
     sort_key (\<lambda>x. - snd x) (map (\<lambda>idx. (idx, get_score variance_scores idx)) region_slices)"

definition high_var_slices :: "(nat \<rightharpoonup> rat) \<Rightarrow> nat list \<Rightarrow> int \<Rightarrow> nat list" where
  "high_var_slices variance_scores region_slices high_var_count =
     map fst (py_prefix (with_var_sorted variance_scores region_slices) high_var_count)"

definition remaining_slices :: "nat list \<Rightarrow> nat list \<Rightarrow> nat list" where
  "remaining_slices region_slices high = filter (\<lambda>idx. idx \<notin> set high) region_slices"

definition uniform_step :: "nat \<Rightarrow> int \<Rightarrow> nat" where
  "uniform_step remaining_count uniform_count =
     max 1 (nat (int remaining_count div uniform_count))"

definition uniform_slices :: "nat list \<Rightarrow> int \<Rightarrow> py_error + nat list" where
  "uniform_slices remaining uniform_count =
     (if remaining \<noteq> [] \<and> 0 < uniform_count
      then
        let step = uniform_step (length remaining) uniform_count
        in collect (map (\<lambda>i. py_index remaining (i * step))
                      [0..<nat (min uniform_count (int (length remaining)))])
      else Inr [])"

text \<open>
  The selection inside one region. \<^verbatim>\<open>list(set(...))\<close> keeps one copy of every element in
  an order of the interpreter's choosing; the order written here is that of first
  occurrence, and the result of the whole selection does not depend on it, because it
  is sorted at the end.
\<close>

definition select_from_region :: "(nat \<rightharpoonup> rat) \<Rightarrow> nat list \<Rightarrow> int \<Rightarrow> py_error + nat list" where
  "select_from_region variance_scores region_slices quota =
     (if int (length region_slices) \<le> quota then Inr region_slices
      else
        case int_of_product quota float_0_7 of
          Inl e \<Rightarrow> Inl e
        | Inr high_var_count \<Rightarrow>
            let uniform_count = quota - high_var_count;
                high = high_var_slices variance_scores region_slices high_var_count;
                remaining = remaining_slices region_slices high
            in case uniform_slices remaining uniform_count of
                 Inl e \<Rightarrow> Inl e
               | Inr uniform \<Rightarrow> Inr (remdups (high @ uniform)))"

text \<open>
  The loop over the regions. Each region that is processed leaves a record of the
  values of the loop's variables in that iteration; a region without candidates is
  skipped before any quota is assigned.
\<close>

record region_run =
  run_name :: region
  run_slices :: "nat list"
  run_quota :: int
  run_selected :: "nat list"

fun run_regions ::
  "nat list \<Rightarrow> (nat \<rightharpoonup> rat) \<Rightarrow> int \<Rightarrow> int \<Rightarrow> (region \<times> py_float \<times> py_float) list
     \<Rightarrow> py_error + region_run list" where
  "run_regions lung_indices variance_scores quota_per_region extra_slices [] = Inr []"
| "run_regions lung_indices variance_scores quota_per_region extra_slices
     ((region_name, start_frac, end_frac) # rest) =
     (case int_of_product (int (length lung_indices)) start_frac of
        Inl e \<Rightarrow> Inl e
      | Inr start_idx \<Rightarrow>
     (case int_of_product (int (length lung_indices)) end_frac of
        Inl e \<Rightarrow> Inl e
      | Inr end_idx \<Rightarrow>
          let region_slices = py_slice lung_indices start_idx end_idx
          in if region_slices = []
             then run_regions lung_indices variance_scores quota_per_region extra_slices rest
             else
               let (quota, extra_left) = region_quota quota_per_region extra_slices region_name
               in case select_from_region variance_scores region_slices quota of
                    Inl e \<Rightarrow> Inl e
                  | Inr selected_from_region \<Rightarrow>
                      (case run_regions lung_indices variance_scores quota_per_region
                              extra_left rest of
                         Inl e \<Rightarrow> Inl e
                       | Inr runs \<Rightarrow>
                           Inr (\<lparr>run_name = region_name, run_slices = region_slices,
                                 run_quota = quota, run_selected = selected_from_region\<rparr>
                                # runs))))"

definition quota_runs :: "variance_fn \<Rightarrow> dicom_slice list \<Rightarrow> int \<Rightarrow> py_error + region_run list" where
  "quota_runs np_var dicom_slices target_count =
     (let lung_data = scan_slices np_var 0 dicom_slices
      in run_regions (map fst lung_data) (map_of (rev lung_data))
           (target_count div 5) (target_count mod 5) regions)"

text \<open>\<^verbatim>\<open>select_representative_slices\<close>, from the decoded series on.\<close>

definition select_representative_slices ::
  "variance_fn \<Rightarrow> dicom_slice list \<Rightarrow> int \<Rightarrow> py_error + nat list" where
  "select_representative_slices np_var dicom_slices target_count =
     (let lung_data = scan_slices np_var 0 dicom_slices
      in if lung_data = [] then Inr (py_prefix (valid_indices dicom_slices) target_count)
         else
           let lung_indices = map fst lung_data
           in if length lung_indices \<le> 10 then Inr lung_indices
              else
                case quota_runs np_var dicom_slices target_count of
                  Inl e \<Rightarrow> Inl e
                | Inr runs \<Rightarrow> Inr (sort (remdups (concat (map run_selected runs)))))"

section \<open>The entry point\<close>

text \<open>
  What \<^verbatim>\<open>main\<close> reads: input on which \<^verbatim>\<open>json.loads\<close> or the field access raises (with the
  message of the exception), or an object with its optional fields \<^verbatim>\<open>dicomBuffers\<close>
  (a list, given here by what reading each buffer yields) and \<^verbatim>\<open>targetCount\<close>
  (an integer). What it leaves: the object printed on standard output, as its fields in
  order, and the exit code of the process.
\<close>

datatype stdin_input =
  Malformed string
| Envelope "dicom_slice list option" "int option"

datatype json = JBool bool | JInt int | JStr string | JList "json list"

record outcome =
  stdout :: "(string \<times> json) list"
  exit_code :: nat

definition main :: "variance_fn \<Rightarrow> stdin_input \<Rightarrow> outcome" where
  "main np_var input =
     (case input of
        Malformed msg \<Rightarrow>
          \<lparr>stdout = [(''error'', JStr msg), (''success'', JBool False)], exit_code = 1\<rparr>
      | Envelope buffers target \<Rightarrow>
          let dicom_buffers = (case buffers of None \<Rightarrow> [] | Some bs \<Rightarrow> bs);
              target_count = (case target of None \<Rightarrow> 200 | Some t \<Rightarrow> t)
          in if dicom_buffers = []
             then \<lparr>stdout = [(''error'', JStr ''No DICOM buffers provided'')], exit_code = 1\<rparr>
             else
               case select_representative_slices np_var dicom_buffers target_count of
                 Inl e \<Rightarrow>
                   \<lparr>stdout = [(''error'', JStr (str_of_error e)), (''success'', JBool False)],
                    exit_code = 1\<rparr>
               | Inr selected_indices \<Rightarrow>
                   \<lparr>stdout =
                      [(''success'', JBool True),
                       (''selectedIndices'', JList (map (\<lambda>i. JInt (int i)) selected_indices)),
                       (''totalSlices'', JInt (int (length dicom_buffers))),
                       (''selectedCount'', JInt (int (length selected_indices)))],
                    exit_code = 0\<rparr>)"

section \<open>A series with scores\<close>

text \<open>
  A series to run the model on: 15 slices of 100 pixels each, every pixel inside both
  masks, half of them at one value and half at another, so that the variance of slice
  \<open>k\<close> is the square of half the distance of its two values (0, 1, 4, ..., 81, 64, ..., 16).
\<close>

definition two_level :: "rat \<Rightarrow> rat \<Rightarrow> dicom_slice" where
  "two_level a b = Dataset (Some (replicate 50 (Finite a) @ replicate 50 (Finite b)))"

definition scored_series :: "dicom_slice list" where
  "scored_series =
     [two_level (- 500) (- 500), two_level (- 501) (- 499), two_level (- 502) (- 498),
      two_level (- 503) (- 497), two_level (- 504) (- 496), two_level (- 505) (- 495),
      two_level (- 506) (- 494), two_level (- 507) (- 493), two_level (- 508) (- 492),
      two_level (- 509) (- 491), two_level (- 508) (- 492), two_level (- 507) (- 493),
      two_level (- 506) (- 494), two_level (- 505) (- 495), two_level (- 504) (- 496)]"

section \<open>Words of the specification\<close>

text \<open>
  A slice qualifies when it was converted and the lung classifier accepts it; the
  qualifying list holds the indices of the qualifying slices in ascending order.
\<close>

fun qualifies :: "dicom_slice \<Rightarrow> bool" where
  "qualifies (Dataset (Some hu)) = get_lung_mask hu"
| "qualifies _ = False"

definition qualifying_indices :: "dicom_slice list \<Rightarrow> nat list" where
  "qualifying_indices dicom_slices = filter (\<lambda>i. qualifies (dicom_slices ! i)) [0..<length dicom_slices]"

section \<open>The scoring loop\<close>

lemma scan_slices_indices:
  "map fst (scan_slices np_var i ds) = map (\<lambda>k. i + k) (filter (\<lambda>k. qualifies (ds ! k)) [0..<length ds])"
proof (induction np_var i ds rule: scan_slices.induct)
  case (1 np_var i)
  then show ?case by simp
next
  case (2 np_var i rest)
  have "[0..<length (Unreadable # rest)] = 0 # map Suc [0..<length rest]"
    by (simp add: upt_conv_Cons map_Suc_upt del: upt_Suc)
  then show ?case using 2 by (simp add: filter_map comp_def)
next
  case (3 np_var i rest)
  have "[0..<length (Dataset None # rest)] = 0 # map Suc [0..<length rest]"
    by (simp add: upt_conv_Cons map_Suc_upt del: upt_Suc)
  then show ?case using 3 by (simp add: filter_map comp_def)
next
  case (4 np_var i hu rest)
  have "[0..<length (Dataset (Some hu) # rest)] = 0 # map Suc [0..<length rest]"
    by (simp add: upt_conv_Cons map_Suc_upt del: upt_Suc)
  then show ?case using 4 by (simp add: filter_map comp_def)
qed

lemma lung_indices_eq: "map fst (scan_slices np_var 0 ds) = qualifying_indices ds"
  by (simp add: scan_slices_indices qualifying_indices_def)

lemma py_prefix_nonneg: "0 \<le> b \<Longrightarrow> py_prefix xs b = take (nat b) xs"
  by (simp add: py_prefix_def py_clamp_def min_def)

section \<open>Bounds on the float products\<close>

lemma bit_length_pos: "0 < n \<Longrightarrow> bit_length n = Suc (bit_length (n div 2))"
  by (subst bit_length.simps) simp

lemma bit_length_nonpos: "n \<le> 0 \<Longrightarrow> bit_length n = 0"
  by (subst bit_length.simps) simp

lemma bit_length_bounds: "0 < n \<Longrightarrow> 2 ^ (bit_length n - 1) \<le> n \<and> n < 2 ^ bit_length n"
proof (induction n rule: bit_length.induct)
  case (1 n)
  show ?case
  proof (cases "n div 2 \<le> 0")
    case True
    with "1.prems" have "n = 1" by linarith
    then show ?thesis by (simp add: bit_length_pos bit_length_nonpos)
  next
    case False
    then have pos: "0 < n div 2" by simp
    have "\<not> n \<le> 0" using "1.prems" by simp
    from "1.IH" [OF this pos]
    have ih: "2 ^ (bit_length (n div 2) - 1) \<le> n div 2" "n div 2 < 2 ^ bit_length (n div 2)"
      by auto
    have bl: "bit_length n = Suc (bit_length (n div 2))"
      using "1.prems" by (rule bit_length_pos)
    obtain k where k: "bit_length (n div 2) = Suc k"
      using bit_length_pos [OF pos] by blast
    from ih k have a: "2 ^ k \<le> n div 2" and b: "n div 2 < 2 ^ Suc k" by auto
    from a have "2 * 2 ^ k \<le> n" by linarith
    moreover from b have "n < 2 * 2 ^ Suc k" by linarith
    ultimately show ?thesis by (simp add: bl k)
  qed
qed

lemma round53_cases:
  assumes "\<not> bit_length x \<le> 53"
  shows "round53 x = (x div 2 ^ (bit_length x - 53)) * 2 ^ (bit_length x - 53)
       \<or> round53 x = (x div 2 ^ (bit_length x - 53)) * 2 ^ (bit_length x - 53)
                        + 2 ^ (bit_length x - 53)"
  using assms unfolding round53_def Let_def by (simp add: algebra_simps)

lemma round53_bounds:
  assumes "0 \<le> x"
  shows "4503599627370496 * round53 x \<le> 4503599627370497 * x
       \<and> 4503599627370495 * x \<le> 4503599627370496 * round53 x"
proof (cases "bit_length x \<le> 53")
  case True
  then show ?thesis using assms by (simp add: round53_def)
next
  case False
  define s where "s = bit_length x - 53"
  define P where "P = (2::int) ^ s"
  define y where "y = (x div P) * P"
  define r where "r = x mod P"
  have xpos: "0 < x" using False assms by (cases "x = 0") (simp_all add: bit_length_nonpos)
  have bl: "bit_length x - 1 = s + 52" using False by (simp add: s_def)
  from bit_length_bounds [OF xpos] bl have lo: "2 ^ (s + 52) \<le> x" by simp
  have p52: "(2::int) ^ (s + 52) = 4503599627370496 * P" by (simp add: power_add P_def)
  have 1: "4503599627370496 * P \<le> x" using lo p52 by simp
  have 2: "x = y + r" by (simp add: y_def r_def)
  have 3: "r < P" "0 \<le> r" by (simp_all add: r_def P_def)
  have 4: "round53 x = y \<or> round53 x = y + P"
    using round53_cases [OF False] by (simp add: y_def P_def s_def)
  from 1 2 3 4 show ?thesis by linarith
qed

lemma round53_nonneg: "0 \<le> x \<Longrightarrow> 0 \<le> round53 x"
  using round53_bounds [of x] by linarith

lemma no_overflow:
  assumes "\<bar>n\<bar> < 2 ^ 1000"
  shows "int_of_product n c = Inr (trunc_product n c)"
proof -
  have "0 \<le> \<bar>n\<bar>" by simp
  from round53_bounds [OF this] assms have "round53 \<bar>n\<bar> < 2 ^ 1024" by simp
  then show ?thesis by (simp add: int_of_product_def)
qed

lemma div_bounds: 
  fixes p :: int
  shows "2 ^ e * (p div 2 ^ e) \<le> p \<and> p < 2 ^ e * (p div 2 ^ e) + 2 ^ e"
proof -
  have "p = 2 ^ e * (p div 2 ^ e) + p mod 2 ^ e" by simp
  moreover have "0 \<le> p mod (2::int) ^ e" "p mod (2::int) ^ e < 2 ^ e" by simp_all
  ultimately show ?thesis by linarith
qed




section \<open>Sampling and ranking inside a region\<close>

lemma collect_map_index:
  "(\<forall>i\<in>set js. f i < length xs) \<Longrightarrow>
     collect (map (\<lambda>i. py_index xs (f i)) js) = Inr (map (\<lambda>i. xs ! f i) js)"
  by (induction js) (simp_all add: py_index_def)

lemma uniform_position_bound:
  assumes "0 < r" and "0 < u" and "i < nat (min u (int r))"
  shows "i * uniform_step r u < r"
proof (cases "u \<le> int r")
  case True
  define k where "k = nat u"
  have k: "0 < k" "k \<le> r" "u = int k" using assms(2) True by (simp_all add: k_def)
  have d: "nat (int r div u) = r div k" by (simp add: k(3) zdiv_int [symmetric])
  have "1 \<le> r div k" using k by (simp add: div_greater_zero_iff Suc_le_eq)
  then have step: "uniform_step r u = r div k" by (simp add: uniform_step_def d)
  have "i < k" using assms(3) True k by simp
  then have "Suc i \<le> k" by simp
  then have "Suc i * (r div k) \<le> k * (r div k)" by (rule mult_le_mono1)
  also have "\<dots> \<le> r" by simp
  finally have "i * (r div k) + r div k \<le> r" by simp
  with \<open>1 \<le> r div k\<close> show ?thesis by (simp add: step)
next
  case False
  then have "int r div u = 0" using assms by (simp add: div_pos_pos_trivial)
  then have "uniform_step r u = 1" by (simp add: uniform_step_def)
  moreover have "i < r" using assms(3) False by simp
  ultimately show ?thesis by simp
qed

lemma uniform_slices_eq:
  "uniform_slices remaining u =
     Inr (if remaining \<noteq> [] \<and> 0 < u
          then map (\<lambda>i. remaining ! (i * uniform_step (length remaining) u))
                 [0..<nat (min u (int (length remaining)))]
          else [])"
proof (cases "remaining \<noteq> [] \<and> 0 < u")
  case True
  then have "\<forall>i\<in>set [0..<nat (min u (int (length remaining)))].
               i * uniform_step (length remaining) u < length remaining"
    using uniform_position_bound [of "length remaining" u] by auto
  from collect_map_index [OF this] True show ?thesis
    by (simp add: uniform_slices_def Let_def)
next
  case False
  then show ?thesis by (auto simp add: uniform_slices_def)
qed

lemma uniform_slices_subset:
  "uniform_slices remaining u = Inr us \<Longrightarrow> set us \<subseteq> set remaining"
proof -
  assume a: "uniform_slices remaining u = Inr us"
  show ?thesis
  proof (cases "remaining \<noteq> [] \<and> 0 < u")
    case True
    then have "us = map (\<lambda>i. remaining ! (i * uniform_step (length remaining) u))
                 [0..<nat (min u (int (length remaining)))]"
      using a by (simp add: uniform_slices_eq)
    moreover have "\<forall>i\<in>set [0..<nat (min u (int (length remaining)))].
               i * uniform_step (length remaining) u < length remaining"
      using True uniform_position_bound [of "length remaining" u] by auto
    ultimately show ?thesis by auto
  next
    case False
    then have "us = []" using a by (auto simp add: uniform_slices_eq)
    then show ?thesis by simp
  qed
qed

lemma with_var_sorted_fst: "mset (map fst (with_var_sorted vs rs)) = mset rs"
proof -
  have "mset (map fst (with_var_sorted vs rs))
          = image_mset fst (mset (map (\<lambda>idx. (idx, get_score vs idx)) rs))"
    by (simp add: with_var_sorted_def)
  also have "\<dots> = mset rs" by (simp add: image_mset.compositionality comp_def)
  finally show ?thesis .
qed




lemma high_var_slices_subset: "set (high_var_slices vs rs h) \<subseteq> set rs"
proof -
  have "set (high_var_slices vs rs h) \<subseteq> set (map fst (with_var_sorted vs rs))"
    by (auto simp add: high_var_slices_def py_prefix_def dest: in_set_takeD)
  also have "\<dots> = set rs" using with_var_sorted_fst [of vs rs] by (metis set_mset_mset)
  finally show ?thesis .
qed


lemma select_from_region_subset:
  assumes "select_from_region vs rs q = Inr sel"
  shows "set sel \<subseteq> set rs"
proof (cases "int (length rs) \<le> q")
  case True
  then show ?thesis using assms by (simp add: select_from_region_def)
next
  case False
  from False assms obtain h us where
    us: "uniform_slices (remaining_slices rs (high_var_slices vs rs h)) (q - h) = Inr us"
    and sel: "sel = remdups (high_var_slices vs rs h @ us)"
    by (auto simp add: select_from_region_def Let_def split: sum.splits)
  have "set us \<subseteq> set rs"
    using uniform_slices_subset [OF us] by (auto simp add: remaining_slices_def)
  with high_var_slices_subset [of vs rs h] show ?thesis by (simp add: sel)
qed





section \<open>Invariants of the loop over the regions\<close>

lemma py_slice_sublist: "\<exists>s n. py_slice xs a b = take n (drop s xs)"
  by (auto simp add: py_slice_def Let_def)

lemma py_slice_distinct: "distinct xs \<Longrightarrow> distinct (py_slice xs a b)"
  by (simp add: py_slice_def Let_def)

lemma py_slice_subset: "set (py_slice xs a b) \<subseteq> set xs"
  by (auto simp add: py_slice_def Let_def dest: in_set_takeD in_set_dropD)

lemma py_slice_length: "length (py_slice xs a b) \<le> length xs"
  by (simp add: py_slice_def Let_def)

lemma qualifying_indices_props:
  "sorted_wrt (<) (qualifying_indices ds)"
  "distinct (qualifying_indices ds)"
  "\<forall>i\<in>set (qualifying_indices ds). i < length ds"
  "length (qualifying_indices ds) \<le> length ds"
proof -
  show "length (qualifying_indices ds) \<le> length ds"
    using length_filter_le [of "\<lambda>i. qualifies (ds ! i)" "[0..<length ds]"]
    by (simp add: qualifying_indices_def)
qed (simp_all add: qualifying_indices_def sorted_wrt_filter sorted_wrt_upt)

lemma valid_indices_props:
  "sorted_wrt (<) (valid_indices ds)"
  "\<forall>i\<in>set (valid_indices ds). i < length ds"
  by (simp_all add: valid_indices_def sorted_wrt_filter sorted_wrt_upt)

lemma run_regions_inv:
  "run_regions lung vs qpr extra regs = Inr runs \<Longrightarrow> r \<in> set runs \<Longrightarrow>
     (\<exists>a b. run_slices r = py_slice lung a b) \<and> run_slices r \<noteq> []
     \<and> select_from_region vs (run_slices r) (run_quota r) = Inr (run_selected r)
     \<and> (run_quota r = qpr \<or> run_quota r = qpr + 1)"
proof (induction regs arbitrary: extra runs)
  case Nil
  then show ?case by simp
next
  case (Cons reg rest)
  obtain region_name start_frac end_frac where reg: "reg = (region_name, start_frac, end_frac)"
    by (cases reg) auto
  from Cons.prems(1) obtain start_idx end_idx where
    s: "int_of_product (int (length lung)) start_frac = Inr start_idx"
    and e: "int_of_product (int (length lung)) end_frac = Inr end_idx"
    by (auto simp add: reg split: sum.splits)
  define region_slices where "region_slices = py_slice lung start_idx end_idx"
  show ?case
  proof (cases "region_slices = []")
    case True
    then have "run_regions lung vs qpr extra rest = Inr runs"
      using Cons.prems(1) s e by (simp add: reg region_slices_def)
    from Cons.IH [OF this Cons.prems(2)] show ?thesis .
  next
    case False
    obtain quota extra_left where rq: "region_quota qpr extra region_name = (quota, extra_left)"
      by (cases "region_quota qpr extra region_name")
    from Cons.prems(1) s e False rq obtain sel rest_runs where
      sel: "select_from_region vs region_slices quota = Inr sel"
      and rr: "run_regions lung vs qpr extra_left rest = Inr rest_runs"
      and runs: "runs = \<lparr>run_name = region_name, run_slices = region_slices,
                         run_quota = quota, run_selected = sel\<rparr> # rest_runs"
      by (auto simp add: reg region_slices_def [symmetric] split: sum.splits)
    have qq: "quota = qpr \<or> quota = qpr + 1"
      using rq by (auto simp add: region_quota_def split: if_splits)
    show ?thesis
    proof (cases "r \<in> set rest_runs")
      case True
      from Cons.IH [OF rr True] show ?thesis .
    next
      case False
      with runs Cons.prems(2)
      have "r = \<lparr>run_name = region_name, run_slices = region_slices,
                  run_quota = quota, run_selected = sel\<rparr>" by simp
      then show ?thesis using \<open>region_slices \<noteq> []\<close> sel qq
        by (auto simp add: region_slices_def)
    qed
  qed
qed

lemma quota_runs_inv:
  assumes "quota_runs np_var ds t = Inr runs" and "r \<in> set runs"
  shows "distinct (run_slices r)"
    and "set (run_slices r) \<subseteq> set (qualifying_indices ds)"
    and "length (run_slices r) \<le> length ds"
    and "run_slices r \<noteq> []"
    and "select_from_region (map_of (rev (scan_slices np_var 0 ds))) (run_slices r) (run_quota r)
           = Inr (run_selected r)"
    and "run_quota r = t div 5 \<or> run_quota r = t div 5 + 1"
proof -
  from assms(1) have rr: "run_regions (qualifying_indices ds) (map_of (rev (scan_slices np_var 0 ds)))
                       (t div 5) (t mod 5) regions = Inr runs"
    by (simp add: quota_runs_def Let_def lung_indices_eq)
  from run_regions_inv [OF rr assms(2)] obtain a b where
    sl: "run_slices r = py_slice (qualifying_indices ds) a b"
    and rest: "run_slices r \<noteq> []"
      "select_from_region (map_of (rev (scan_slices np_var 0 ds))) (run_slices r) (run_quota r)
           = Inr (run_selected r)"
      "run_quota r = t div 5 \<or> run_quota r = t div 5 + 1"
    by blast
  show "distinct (run_slices r)"
    unfolding sl by (rule py_slice_distinct) (rule qualifying_indices_props)
  show "set (run_slices r) \<subseteq> set (qualifying_indices ds)"
    unfolding sl by (rule py_slice_subset)
  show "length (run_slices r) \<le> length ds"
    unfolding sl using py_slice_length [of "qualifying_indices ds" a b]
      qualifying_indices_props(4) [of ds] by linarith
  from rest show "run_slices r \<noteq> []"
    "select_from_region (map_of (rev (scan_slices np_var 0 ds))) (run_slices r) (run_quota r)
           = Inr (run_selected r)"
    "run_quota r = t div 5 \<or> run_quota r = t div 5 + 1"
    by simp_all
qed

lemma quota_runs_selected_subset:
  assumes "quota_runs np_var ds t = Inr runs"
  shows "set (concat (map run_selected runs)) \<subseteq> set (qualifying_indices ds)"
proof
  fix x assume "x \<in> set (concat (map run_selected runs))"
  then obtain r where r: "r \<in> set runs" "x \<in> set (run_selected r)" by auto
  from quota_runs_inv(5) [OF assms r(1)] have "set (run_selected r) \<subseteq> set (run_slices r)"
    by (rule select_from_region_subset)
  with r(2) quota_runs_inv(2) [OF assms r(1)] show "x \<in> set (qualifying_indices ds)" by auto
qed

lemma select_cases:
  assumes "select_representative_slices np_var ds t = Inr sel"
  shows "(qualifying_indices ds = [] \<and> sel = py_prefix (valid_indices ds) t)
       \<or> (qualifying_indices ds \<noteq> [] \<and> length (qualifying_indices ds) \<le> 10
            \<and> sel = qualifying_indices ds)
       \<or> (10 < length (qualifying_indices ds)
            \<and> (\<exists>runs. quota_runs np_var ds t = Inr runs
                  \<and> sel = sort (remdups (concat (map run_selected runs)))))"
proof -
  have idx: "map fst (scan_slices np_var 0 ds) = qualifying_indices ds"
    by (rule lung_indices_eq)
  then have e: "scan_slices np_var 0 ds = [] \<longleftrightarrow> qualifying_indices ds = []" by auto
  show ?thesis
    using assms unfolding select_representative_slices_def Let_def idx e
    by (auto split: if_splits sum.splits)
qed

lemma uniform_step_nat: "0 \<le> u \<Longrightarrow> uniform_step r u = max 1 (r div nat u)"
proof -
  assume "0 \<le> u"
  then have "int r div u = int (r div nat u)" by (simp add: zdiv_int)
  then show ?thesis by (simp add: uniform_step_def)
qed

section \<open>The model on the scored series\<close>

lemma exact_variance_two_level:
  "exact_variance (replicate 50 a @ replicate 50 b) = (a - b) * (a - b) / 4"
  by (simp add: exact_variance_def sum_list_replicate field_simps)

lemma two_level_scored:
  assumes "- 1000 < a" "a < - 400" "- 1000 < b" "b < - 400"
  shows "scan_slices (\<lambda>xs. Inr (exact_variance xs)) i (two_level a b # rest)
           = (i, (a - b) * (a - b) / 4) # scan_slices (\<lambda>xs. Inr (exact_variance xs)) (Suc i) rest"
  using assms
  by (simp add: two_level_def get_lung_mask_def calculate_slice_variance_def variance_body_def
        Let_def filter_replicate exact_variance_two_level)

lemma scored_series_scan:
  "scan_slices (\<lambda>xs. Inr (exact_variance xs)) 0 scored_series
   = [(0, 0), (1, 1), (2, 4), (3, 9), (4, 16), (5, 25), (6, 36), (7, 49), (8, 64), (9, 81),
      (10, 64), (11, 49), (12, 36), (13, 25), (14, 16)]"
  by (simp add: scored_series_def two_level_scored)

lemma scored_series_runs:
  "quota_runs (\<lambda>xs. Inr (exact_variance xs)) scored_series 10
   = Inr [\<lparr>run_name = APEX, run_slices = [0, 1, 2], run_quota = 2, run_selected = [2, 0]\<rparr>,
          \<lparr>run_name = UPPER, run_slices = [3, 4, 5], run_quota = 2, run_selected = [5, 3]\<rparr>,
          \<lparr>run_name = CENTRAL, run_slices = [6, 7, 8], run_quota = 2, run_selected = [8, 6]\<rparr>,
          \<lparr>run_name = LOWER, run_slices = [9, 10, 11], run_quota = 2, run_selected = [9, 10]\<rparr>,
          \<lparr>run_name = BASE, run_slices = [12, 13, 14], run_quota = 2, run_selected = [12, 13]\<rparr>]"
  unfolding quota_runs_def scored_series_scan Let_def by code_simp

lemma scored_series_selection:
  "select_representative_slices (\<lambda>xs. Inr (exact_variance xs)) scored_series 10
   = Inr [0, 2, 3, 5, 6, 8, 9, 10, 12, 13]"
proof -
  have "sort (remdups (concat (map run_selected
          [\<lparr>run_name = APEX, run_slices = [0, 1, 2], run_quota = 2, run_selected = [2, 0]\<rparr>,
          \<lparr>run_name = UPPER, run_slices = [3, 4, 5], run_quota = 2, run_selected = [5, 3]\<rparr>,
          \<lparr>run_name = CENTRAL, run_slices = [6, 7, 8], run_quota = 2, run_selected = [8, 6]\<rparr>,
          \<lparr>run_name = LOWER, run_slices = [9, 10, 11], run_quota = 2, run_selected = [9, 10]\<rparr>,
          \<lparr>run_name = BASE, run_slices = [12, 13, 14], run_quota = 2, run_selected = [12, 13]\<rparr>])))
        = [0, 2, 3, 5, 6, 8, 9, 10, 12, 13 :: nat]" by code_simp
  then show ?thesis
    unfolding select_representative_slices_def Let_def scored_series_runs scored_series_scan
    by simp
qed



section \<open>The quotas of the five regions\<close>




section \<open>The selection returns\<close>


lemma select_from_region_returns:
  "\<bar>q\<bar> < 2 ^ 1000 \<Longrightarrow> \<exists>sel. select_from_region vs rs q = Inr sel"
  by (simp add: select_from_region_def no_overflow uniform_slices_eq Let_def)

lemma run_regions_returns:
  assumes "length lung < 2 ^ 63" and "\<bar>qpr\<bar> + 1 < 2 ^ 1000"
  shows "\<exists>runs. run_regions lung vs qpr extra regs = Inr runs"
proof (induction regs arbitrary: extra)
  case Nil
  then show ?case by simp
next
  case (Cons reg rest)
  obtain name sf ef where reg: "reg = (name, sf, ef)" by (cases reg) auto
  have "\<bar>int (length lung)\<bar> < 2 ^ 1000" using assms(1) by simp
  note io = no_overflow [OF this]
  obtain quota extra_left where rq: "region_quota qpr extra name = (quota, extra_left)"
    by (cases "region_quota qpr extra name")
  then have "quota = qpr \<or> quota = qpr + 1"
    by (auto simp add: region_quota_def split: if_splits)
  with assms(2) have "\<bar>quota\<bar> < 2 ^ 1000" by auto
  from select_from_region_returns [OF this] obtain sel where
    sel: "select_from_region vs
            (py_slice lung (trunc_product (int (length lung)) sf)
               (trunc_product (int (length lung)) ef)) quota = Inr sel"
    by blast
  from Cons.IH [of extra] obtain r1 where r1: "run_regions lung vs qpr extra rest = Inr r1"
    by blast
  from Cons.IH [of extra_left] obtain r2 where
    r2: "run_regions lung vs qpr extra_left rest = Inr r2" by blast
  show ?case by (simp add: reg io Let_def rq sel r1 r2)
qed

lemma select_returns:
  assumes "length dicom_slices < 2 ^ 63" and "\<bar>target_count\<bar> < 2 ^ 1000"
  shows "\<exists>selected. select_representative_slices np_var dicom_slices target_count = Inr selected"
proof -
  have "5 * (target_count div 5) \<le> target_count"
    "target_count < 5 * (target_count div 5) + 5"
    by (simp_all add: zdiv_mono1 pos_mod_bound minus_mod_eq_mult_div [symmetric] algebra_simps)
  with assms(2) have q: "\<bar>target_count div 5\<bar> + 1 < 2 ^ 1000" by simp
  have "length (qualifying_indices dicom_slices) < 2 ^ 63"
    using qualifying_indices_props(4) [of dicom_slices] assms(1) by linarith
  from run_regions_returns [OF this q]
  obtain runs where "quota_runs np_var dicom_slices target_count = Inr runs"
    unfolding quota_runs_def Let_def lung_indices_eq by blast
  then show ?thesis by (simp add: select_representative_slices_def Let_def)
qed

lemma trunc_product_examples:
  "trunc_product 10 float_0_7 = 7"
  "trunc_product 90 float_0_7 = 62"
  "trunc_product 3 float_0_7 = 2"
  "trunc_product (- 5) float_0_7 = - 3"
  by code_simp+

lemma select_from_region_example:
  "select_from_region (map_of [(0, 5), (1, 1), (2, 9), (3, 9), (4, 0), (5, 2), (6, 7)])
     [0, 1, 2, 3, 4, 5, 6] 5 = Inr [2, 3, 6, 0, 4]"
  by code_simp

text \<open>
  The double \<open>0.7\<close> lies below 7/10, so \<^verbatim>\<open>int(q * 0.7)\<close> can fall one short of the
  exact floor of \<open>7 q / 10\<close>, and only when \<open>q\<close> is a multiple of 10 (90 gives 62).
\<close>

lemma high_var_count_near_floor:
  assumes "0 \<le> q" and "q < 2 ^ 40"
  shows "7 * q div 10 - 1 \<le> trunc_product q float_0_7"
    and "trunc_product q float_0_7 \<le> 7 * q div 10"
    and "q mod 10 \<noteq> 0 \<Longrightarrow> trunc_product q float_0_7 = 7 * q div 10"
proof -
  define a where "a = round53 q"
  define p where "p = round53 (a * 3152519739159347)"
  define h where "h = p div 2 ^ 52"
  define d where "d = 7 * q div 10"
  define m where "m = 7 * q mod 10"
  have q40: "q < 1099511627776" using assms(2) by simp
  have a: "4503599627370496 * a \<le> 4503599627370497 * q"
    "4503599627370495 * q \<le> 4503599627370496 * a" "0 \<le> a"
    using round53_bounds [OF assms(1)] round53_nonneg [OF assms(1)] by (simp_all add: a_def)
  then have "0 \<le> a * 3152519739159347" by simp
  from round53_bounds [OF this]
  have p: "4503599627370496 * p \<le> 4503599627370497 * (a * 3152519739159347)"
    "4503599627370495 * (a * 3152519739159347) \<le> 4503599627370496 * p"
    by (simp_all add: p_def)
  from div_bounds [of 52 p]
  have h: "4503599627370496 * h \<le> p" "p < 4503599627370496 * h + 4503599627370496"
    by (simp_all add: h_def)
  have dm: "7 * q = 10 * d + m" "0 \<le> m" "m < 10" by (simp_all add: d_def m_def)
  have t: "trunc_product q float_0_7 = h"
  proof (cases "q = 0")
    case True
    then show ?thesis
      by (simp add: trunc_product_def h_def p_def a_def float_0_7_def round53_def bit_length_nonpos)
  next
    case False
    with assms(1) have "0 < q" by simp
    then show ?thesis by (simp add: trunc_product_def float_0_7_def h_def p_def a_def)
  qed
  show lo: "7 * q div 10 - 1 \<le> trunc_product q float_0_7"
    unfolding t d_def [symmetric] using a p h dm q40 assms(1) by linarith
  show hi: "trunc_product q float_0_7 \<le> 7 * q div 10"
    unfolding t d_def [symmetric] using a p h dm q40 assms(1) by linarith
  assume "q mod 10 \<noteq> 0"
  then have "m \<noteq> 0" unfolding m_def by presburger
  with dm have "1 \<le> m" by simp
  then have "d \<le> h" using a p h dm q40 assms(1) by linarith
  with hi show "trunc_product q float_0_7 = 7 * q div 10" by (simp add: t d_def)
qed

section \<open>The paths that bypass the quota system\<close>

text \<open>
  Claim C7. When the qualifying list is not empty and has at most 10 entries,
  \<^verbatim>\<open>select_representative_slices\<close> returns exactly the qualifying list, whatever the
  target count is: neither the quotas nor the scores are consulted.
\<close>

theorem small_series_passthrough:
  assumes "qualifying_indices dicom_slices \<noteq> []"
    and "length (qualifying_indices dicom_slices) \<le> 10"
  shows "select_representative_slices np_var dicom_slices target_count
           = Inr (qualifying_indices dicom_slices)"
proof -
  have idx: "map fst (scan_slices np_var 0 dicom_slices) = qualifying_indices dicom_slices"
    by (rule lung_indices_eq)
  with assms(1) have "scan_slices np_var 0 dicom_slices \<noteq> []" by auto
  with assms(2) idx show ?thesis
    by (simp add: select_representative_slices_def Let_def)
qed

theorem small_series_passthrough_witness:
  "select_representative_slices (\<lambda>xs. Inr 0)
     [Unreadable, Dataset (Some [Finite (- 500)]), Dataset None, Dataset (Some [Finite (- 700)])] 1
   = Inr [1, 3]"
proof -
  let ?ds = "[Unreadable, Dataset (Some [Finite (- 500)]), Dataset None, Dataset (Some [Finite (- 700)])]"
  have q: "qualifying_indices ?ds = [1, 3]" by code_simp
  have "select_representative_slices (\<lambda>xs. Inr 0) ?ds 1 = Inr (qualifying_indices ?ds)"
    by (rule small_series_passthrough) (simp_all add: q)
  also have "\<dots> = Inr [1, 3]" by (simp only: q)
  finally show ?thesis .
qed



section \<open>The pathology score\<close>



section \<open>The entry point on an empty buffer list\<close>

text \<open>
  Claim C8. On an input whose \<^verbatim>\<open>dicomBuffers\<close> is the empty list, \<^verbatim>\<open>main\<close> prints an
  object with the single field \<^verbatim>\<open>error\<close> and exits with code 1: the object has no
  field \<^verbatim>\<open>success\<close>, which the failure output of the exception handler carries.
\<close>

theorem main_empty_buffers:
  "main np_var (Envelope (Some []) (Some 200))
     = \<lparr>stdout = [(''error'', JStr ''No DICOM buffers provided'')], exit_code = 1\<rparr>
   \<and> map_of (stdout (main np_var (Envelope (Some []) (Some 200)))) ''success'' = None
   \<and> map_of (stdout (main np_var (Malformed ''Expecting value''))) ''success''
       = Some (JBool False)"
  by (simp add: main_def)
section \<open>The returned list\<close>

text \<open>
  Claim C5. Whatever the series and the target count, a list that
  \<^verbatim>\<open>select_representative_slices\<close> returns is strictly ascending, has no repeated
  value, and holds only indices of the input series. This covers the fallback, the
  small-list passthrough and the quota selection; by \<open>select_returns\<close> the function does
  return a list for every series and every target count of magnitude below \<open>2^1000\<close>.
\<close>

theorem selection_ascending_and_valid:
  assumes "select_representative_slices np_var dicom_slices target_count = Inr selected"
  shows "sorted_wrt (<) selected \<and> distinct selected
       \<and> (\<forall>i\<in>set selected. i < length dicom_slices)"
proof -
  from select_cases [OF assms] consider
    (fallback) "selected = py_prefix (valid_indices dicom_slices) target_count"
  | (small) "selected = qualifying_indices dicom_slices"
  | (quota) runs where "quota_runs np_var dicom_slices target_count = Inr runs"
      "selected = sort (remdups (concat (map run_selected runs)))"
    by blast
  then show ?thesis
  proof cases
    case fallback
    have s: "sorted_wrt (<) selected"
      unfolding fallback py_prefix_def
      by (rule sorted_wrt_take) (rule valid_indices_props)
    have "set selected \<subseteq> set (valid_indices dicom_slices)"
      unfolding fallback py_prefix_def by (rule set_take_subset)
    with valid_indices_props(2) [of dicom_slices]
    have "\<forall>i\<in>set selected. i < length dicom_slices" by blast
    with s show ?thesis by (simp add: strict_sorted_iff)
  next
    case small
    then show ?thesis using qualifying_indices_props [of dicom_slices] by simp
  next
    case quota
    have "set selected \<subseteq> set (qualifying_indices dicom_slices)"
      using quota_runs_selected_subset [OF quota(1)] by (simp add: quota(2))
    with qualifying_indices_props(3) [of dicom_slices]
    have "\<forall>i\<in>set selected. i < length dicom_slices" by blast
    moreover have "sorted selected \<and> distinct selected" by (simp add: quota(2))
    ultimately show ?thesis by (simp add: strict_sorted_iff)
  qed
qed

theorem selection_ascending_and_valid_witness:
  "select_representative_slices (\<lambda>xs. Inr (exact_variance xs)) scored_series 10
     = Inr [0, 2, 3, 5, 6, 8, 9, 10, 12, 13]
   \<and> sorted_wrt (<) [0, 2, 3, 5, 6, 8, 9, 10, 12, 13 :: nat]
   \<and> distinct [0, 2, 3, 5, 6, 8, 9, 10, 12, 13 :: nat]"
proof -
  from selection_ascending_and_valid [OF scored_series_selection]
  have "sorted_wrt (<) [0, 2, 3, 5, 6, 8, 9, 10, 12, 13 :: nat]
      \<and> distinct [0, 2, 3, 5, 6, 8, 9, 10, 12, 13 :: nat]" by blast
  with scored_series_selection show ?thesis by blast
qed

text \<open>
  Claim C6. For a target count that is not negative, the returned list has at most
  \<open>max target_count qualifying_count\<close> entries, where the qualifying count is the number
  of slices that the lung classifier accepts.
\<close>

theorem selection_length_bound:
  assumes "0 \<le> target_count"
    and "select_representative_slices np_var dicom_slices target_count = Inr selected"
  shows "int (length selected)
           \<le> max target_count (int (length (qualifying_indices dicom_slices)))"
proof -
  from select_cases [OF assms(2)] consider
    (fallback) "selected = py_prefix (valid_indices dicom_slices) target_count"
  | (small) "selected = qualifying_indices dicom_slices"
  | (quota) runs where "quota_runs np_var dicom_slices target_count = Inr runs"
      "selected = sort (remdups (concat (map run_selected runs)))"
    by blast
  then show ?thesis
  proof cases
    case fallback
    then have "selected = take (nat target_count) (valid_indices dicom_slices)"
      using assms(1) by (simp add: py_prefix_nonneg)
    then have "length selected \<le> nat target_count" by simp
    then show ?thesis using assms(1) by linarith
  next
    case small
    then show ?thesis by simp
  next
    case quota
    have sub: "set selected \<subseteq> set (qualifying_indices dicom_slices)"
      using quota_runs_selected_subset [OF quota(1)] by (simp add: quota(2))
    have "distinct selected" by (simp add: quota(2))
    then have "length selected = card (set selected)" by (simp add: distinct_card)
    also have "\<dots> \<le> card (set (qualifying_indices dicom_slices))"
      using sub by (simp add: card_mono)
    also have "\<dots> \<le> length (qualifying_indices dicom_slices)" by (rule card_length)
    finally show ?thesis by simp
  qed
qed

theorem selection_length_bound_witness:
  "select_representative_slices (\<lambda>xs. Inr (exact_variance xs)) scored_series 10
     = Inr [0, 2, 3, 5, 6, 8, 9, 10, 12, 13]
   \<and> int (length [0, 2, 3, 5, 6, 8, 9, 10, 12, 13 :: nat])
       \<le> max 10 (int (length (qualifying_indices scored_series)))"
proof -
  have t: "(0::int) \<le> 10" by simp
  from selection_length_bound [OF t scored_series_selection] scored_series_selection
  show ?thesis by blast
qed

section \<open>The uniform sample\<close>

text \<open>
  Claim C10. For a list \<open>remaining\<close> that is not empty and a positive \<open>uniform_count\<close>,
  with \<open>step = max(1, len(remaining) // uniform_count)\<close>, every position \<open>i * step\<close> for
  \<open>i < min(uniform_count, len(remaining))\<close> lies below \<open>len(remaining)\<close>: the
  comprehension reads inside the list and returns the elements at those positions.
\<close>

theorem uniform_positions_in_bounds:
  assumes "remaining \<noteq> []" and "0 < uniform_count"
  shows "(\<forall>i<nat (min uniform_count (int (length remaining))).
            i * max 1 (length remaining div nat uniform_count) < length remaining)
       \<and> uniform_slices remaining uniform_count
           = Inr (map (\<lambda>i. remaining ! (i * max 1 (length remaining div nat uniform_count)))
                    [0..<nat (min uniform_count (int (length remaining)))])"
proof -
  have st: "uniform_step (length remaining) uniform_count
              = max 1 (length remaining div nat uniform_count)"
    using assms(2) by (simp add: uniform_step_nat)
  have "\<forall>i<nat (min uniform_count (int (length remaining))).
            i * uniform_step (length remaining) uniform_count < length remaining"
    using assms uniform_position_bound [of "length remaining" uniform_count] by simp
  moreover have "uniform_slices remaining uniform_count
           = Inr (map (\<lambda>i. remaining ! (i * uniform_step (length remaining) uniform_count))
                    [0..<nat (min uniform_count (int (length remaining)))])"
    using assms by (simp add: uniform_slices_eq)
  ultimately show ?thesis unfolding st by simp
qed

theorem uniform_positions_in_bounds_witness:
  "uniform_slices [3, 5, 8, 9, 11] 2 = Inr [3, 8]"
proof -
  have ne: "[3, 5, 8, 9, 11] \<noteq> ([] :: nat list)" by simp
  have pos: "(0::int) < 2" by simp
  from uniform_positions_in_bounds [OF ne pos]
  have "uniform_slices [3, 5, 8, 9, 11] 2
          = Inr (map (\<lambda>i. [3, 5, 8, 9, 11 :: nat] ! (i * max 1 (length [3, 5, 8, 9, 11 :: nat] div nat 2)))
                   [0..<nat (min 2 (int (length [3, 5, 8, 9, 11 :: nat])))])"
    by (rule conjunct2)
  also have "\<dots> = Inr [3, 8]" by code_simp
  finally show ?thesis .
qed

section \<open>The selection inside a region\<close>





section \<open>The quotas\<close>





end
